theory Spec2Isabelle
  imports Complex_Main
begin

unbundle bit_operations_syntax

section \<open>Data model\<close>

text \<open>
  \<^verbatim>\<open>using Map = std::vector<std::vector<int>>;\<close>

  A map is a list of rows, each a list of cells. A C++ \<^verbatim>\<open>int\<close> is modelled by an
  \<^typ>\<open>int\<close>; the bit operations of HOL on \<^typ>\<open>int\<close> are the two's complement ones.
  Where \<open>cellularAutomata\<close> computes with values that can leave the 32-bit range (the counter
  \<open>count\<close> and the product \<open>total\<close>) the result is wrapped around, as the compiled program
  does. Coordinates and loop counters are not wrapped: a sum \<open>i + dx\<close> that leaves the 32-bit
  range fails the bounds test with or without the wrap-around.
\<close>

type_synonym Map = "int list list"

text \<open>
  The guard that the source writes before every indexed access,
  \<^verbatim>\<open>x >= 0 && x < H && y >= 0 && y < W\<close>: the first coordinate is the row, compared with
  \<open>H\<close>, the second is the column, compared with \<open>W\<close>.
\<close>

definition in_range :: "int \<Rightarrow> int \<Rightarrow> int \<Rightarrow> int \<Rightarrow> bool" where
  "in_range W H x y \<longleftrightarrow> x \<ge> 0 \<and> x < H \<and> y \<ge> 0 \<and> y < W"

text \<open>
  \<^verbatim>\<open>m[i][j]\<close> as a read and as a write. \<^verbatim>\<open>operator[]\<close> of a vector outside its size is
  undefined behaviour; the model returns \<open>None\<close> there, so an access out of range is a
  visible branch of every function that indexes the map.
\<close>

definition cell_at :: "Map \<Rightarrow> int \<Rightarrow> int \<Rightarrow> int option" where
  "cell_at m i j =
     (if 0 \<le> i \<and> i < int (length m) \<and> 0 \<le> j \<and> j < int (length (m ! nat i))
      then Some (m ! nat i ! nat j) else None)"

definition cell_set :: "Map \<Rightarrow> int \<Rightarrow> int \<Rightarrow> int \<Rightarrow> Map option" where
  "cell_set m i j v =
     (if 0 \<le> i \<and> i < int (length m) \<and> 0 \<le> j \<and> j < int (length (m ! nat i))
      then Some (m[nat i := (m ! nat i)[nat j := v]]) else None)"

text \<open>The value that a 32-bit \<^verbatim>\<open>int\<close> holds after an arithmetic result \<open>x\<close> is stored in it.\<close>

definition wrap32 :: "int \<Rightarrow> int" where
  "wrap32 x = (x + 2147483648) mod 4294967296 - 2147483648"

text \<open>
  A \<^verbatim>\<open>double\<close> is modelled by the rational number that it holds. The division of two
  doubles gives the double nearest to the exact quotient, ties to the even mantissa:
  \<open>binade x\<close> is the exponent \<open>e\<close> with \<open>2\<^sup>e \<le> x < 2\<^sup>e\<^sup>+\<^sup>1\<close> of a positive \<open>x\<close>, and
  \<open>round_double x\<close> keeps 53 significant bits of \<open>x\<close>. (Exponents are not bounded: the
  quotients of two 32-bit integers are far from the subnormal numbers and from infinity.)
\<close>

definition round_even :: "rat \<Rightarrow> int" where
  "round_even x =
     (let f = \<lfloor>x\<rfloor>; d = x - of_int f
      in if d < 1 / 2 then f else if 1 / 2 < d then f + 1 else if even f then f else f + 1)"

function floor_log2 :: "int \<Rightarrow> int" where
  "floor_log2 n = (if n < 2 then 0 else 1 + floor_log2 (n div 2))"
  by pat_completeness auto
termination
  by (relation "measure nat") auto

definition pow2 :: "int \<Rightarrow> rat" where
  "pow2 e = (if 0 \<le> e then 2 ^ nat e else 1 / 2 ^ nat (- e))"

definition binade :: "rat \<Rightarrow> int" where
  "binade x =
     (let (a, b) = quotient_of x;
          e = floor_log2 a - floor_log2 b
      in if pow2 e \<le> x then e else e - 1)"

definition round_double :: "rat \<Rightarrow> rat" where
  "round_double x =
     (if x = 0 then 0
      else let ulp = pow2 (binade \<bar>x\<bar> - 52)
           in sgn x * of_int (round_even (\<bar>x\<bar> / ulp)) * ulp)"

text \<open>
  \<^verbatim>\<open>for (int k = first; k <= kmax; ++k) body(k);\<close> over a state that the body updates.
  A body that fails (an access out of range) ends the loop with \<open>None\<close>. The loops
  \<^verbatim>\<open>for (int k = 0; k < N; ++k)\<close> of the source are the instance \<open>for_loop 0 (N - 1)\<close>.
\<close>

function for_loop :: "int \<Rightarrow> int \<Rightarrow> (int \<Rightarrow> 's \<Rightarrow> 's option) \<Rightarrow> 's \<Rightarrow> 's option" where
  "for_loop k kmax body s =
     (if k \<le> kmax
      then (case body k s of None \<Rightarrow> None | Some s' \<Rightarrow> for_loop (k + 1) kmax body s')
      else Some s)"
  by pat_completeness auto
termination
  by (relation "measure (\<lambda>(k, kmax, body, s). nat (kmax + 1 - k))") auto

section \<open>cellularAutomata\<close>

text \<open>
  The body of the two innermost loops (lines 43 to 49): one window coordinate is added to
  \<open>count\<close>. Only bit 0 of a cell is read.
\<close>

definition count_cell :: "Map \<Rightarrow> int \<Rightarrow> int \<Rightarrow> int \<Rightarrow> int \<Rightarrow> int \<Rightarrow> int \<Rightarrow> int \<Rightarrow> int option" where
  "count_cell m W H i j dx dy count =
     (let ni = i + dx; nj = j + dy in
      if in_range W H ni nj
      then (case cell_at m ni nj of
              None \<Rightarrow> None
            | Some v \<Rightarrow> Some (wrap32 (count + (v AND 1))))
      else Some (wrap32 (count + 1)))"

text \<open>Lines 40 to 51: the count of one cell's window, read from the map as it is now.\<close>

definition count_window :: "Map \<Rightarrow> int \<Rightarrow> int \<Rightarrow> int \<Rightarrow> int \<Rightarrow> int \<Rightarrow> int option" where
  "count_window m W H R i j =
     for_loop (- R) R (\<lambda>dx. for_loop (- R) R (\<lambda>dy. count_cell m W H i j dx dy)) 0"

text \<open>
  Lines 53 to 55: the threshold test. \<open>total\<close> is a product of 32-bit integers, \<open>ratio\<close> the
  quotient of two doubles that hold \<open>count\<close> and \<open>total\<close>, and \<open>U\<close> the value of a double.
\<close>

definition new_value :: "int \<Rightarrow> rat \<Rightarrow> int \<Rightarrow> int" where
  "new_value R U count =
     (let side = wrap32 (wrap32 (2 * R) + 1);
          total = wrap32 (side * side);
          ratio = round_double (of_int count / of_int total)
      in if ratio \<ge> U then 1 else 0)"

text \<open>
  Lines 40 to 58, the body of the first pass at cell \<open>(i, j)\<close>: the new value is stored in
  bit 1 of the cell, in place, in the same map that later cells read.
\<close>

definition update_cell :: "int \<Rightarrow> int \<Rightarrow> int \<Rightarrow> rat \<Rightarrow> int \<Rightarrow> int \<Rightarrow> Map \<Rightarrow> Map option" where
  "update_cell W H R U i j m =
     (case count_window m W H R i j of
        None \<Rightarrow> None
      | Some count \<Rightarrow>
          (case cell_at m i j of
             None \<Rightarrow> None
           | Some v \<Rightarrow> cell_set m i j (v OR push_bit 1 (new_value R U count))))"

definition first_pass :: "int \<Rightarrow> int \<Rightarrow> int \<Rightarrow> rat \<Rightarrow> Map \<Rightarrow> Map option" where
  "first_pass W H R U m =
     for_loop 0 (H - 1) (\<lambda>i. for_loop 0 (W - 1) (\<lambda>j. update_cell W H R U i j)) m"

text \<open>Line 65, the body of the second pass: bit 1 becomes the whole cell.\<close>

definition finish_cell :: "int \<Rightarrow> int \<Rightarrow> Map \<Rightarrow> Map option" where
  "finish_cell i j m =
     (case cell_at m i j of
        None \<Rightarrow> None
      | Some v \<Rightarrow> cell_set m i j (drop_bit 1 v AND 1))"

definition second_pass :: "int \<Rightarrow> int \<Rightarrow> Map \<Rightarrow> Map option" where
  "second_pass W H m =
     for_loop 0 (H - 1) (\<lambda>i. for_loop 0 (W - 1) (\<lambda>j. finish_cell i j)) m"

definition cellularAutomata :: "Map \<Rightarrow> int \<Rightarrow> int \<Rightarrow> int \<Rightarrow> rat \<Rightarrow> Map option" where
  "cellularAutomata currentMap W H R U =
     (case first_pass W H R U currentMap of
        None \<Rightarrow> None
      | Some m \<Rightarrow> second_pass W H m)"

section \<open>drunkAgent\<close>

text \<open>
  The random source \<^verbatim>\<open>rng\<close> is seeded from the clock inside the call. The model takes the
  values it returns as two parameters: \<open>chance k\<close> is the value of the \<open>k\<close>-th evaluation of
  \<^verbatim>\<open>chance(rng)\<close> in the call and \<open>dirDist k\<close> the value of the \<open>k\<close>-th evaluation of
  \<^verbatim>\<open>dirDist(rng)\<close>, both counted from 0. The state counts the evaluations made so far.

  The state of a call: the local variables that the loops update, and the agent's position,
  which the caller passes by reference. The two probabilities are held as the rational
  numbers that the additions give without rounding.
\<close>

record agent =
  newMap :: Map
  agentX :: int
  agentY :: int
  dx :: int
  dy :: int
  probGenerateRoom :: rat
  probChangeDirection :: rat
  chanceCalls :: nat
  dirCalls :: nat

text \<open>Lines 124, 125 and 132, 133: the heading that a value of \<^verbatim>\<open>dirDist\<close> selects.\<close>

definition dir_dx :: "int \<Rightarrow> int" where
  "dir_dx dir = (if dir = 0 then - 1 else if dir = 1 then 1 else 0)"

definition dir_dy :: "int \<Rightarrow> int" where
  "dir_dy dir = (if dir = 2 then - 1 else if dir = 3 then 1 else 0)"

text \<open>Lines 109 to 137, the body of the inner loop. The \<^verbatim>\<open>continue\<close> is the last branch.\<close>

definition inner_step :: "(nat \<Rightarrow> rat) \<Rightarrow> (nat \<Rightarrow> int) \<Rightarrow> int \<Rightarrow> int \<Rightarrow> rat \<Rightarrow> agent \<Rightarrow> agent option" where
  "inner_step chance dirDist W H probIncreaseChange s =
     (case (if in_range W H (agentX s) (agentY s)
            then cell_set (newMap s) (agentX s) (agentY s) 1
            else Some (newMap s)) of
        None \<Rightarrow> None
      | Some m \<Rightarrow>
          (let newX = agentX s + dx s;
               newY = agentY s + dy s
           in if in_range W H newX newY
              then
                (if chance (chanceCalls s) < probChangeDirection s
                 then Some (s\<lparr>newMap := m, agentX := newX, agentY := newY,
                              dx := dir_dx (dirDist (dirCalls s)),
                              dy := dir_dy (dirDist (dirCalls s)),
                              probChangeDirection := 2 / 10,
                              chanceCalls := Suc (chanceCalls s),
                              dirCalls := Suc (dirCalls s)\<rparr>)
                 else Some (s\<lparr>newMap := m, agentX := newX, agentY := newY,
                              probChangeDirection := probChangeDirection s + probIncreaseChange,
                              chanceCalls := Suc (chanceCalls s)\<rparr>))
              else Some (s\<lparr>newMap := m,
                           dx := dir_dx (dirDist (dirCalls s)),
                           dy := dir_dy (dirDist (dirCalls s)),
                           dirCalls := Suc (dirCalls s)\<rparr>)))"

text \<open>
  \<^verbatim>\<open>roomSizeX / 2\<close>: the division of C++ truncates towards zero, the one of HOL rounds
  down.
\<close>

definition half :: "int \<Rightarrow> int" where
  "half n = (if 0 \<le> n then n div 2 else - ((- n) div 2))"

text \<open>Lines 147 to 152, the body of the two loops that draw a room.\<close>

definition stamp_cell :: "int \<Rightarrow> int \<Rightarrow> int \<Rightarrow> int \<Rightarrow> Map \<Rightarrow> Map option" where
  "stamp_cell W H rx ry m = (if in_range W H rx ry then cell_set m rx ry 1 else Some m)"

text \<open>Lines 142 to 154: the room around the position \<open>(ax, ay)\<close>.\<close>

definition stamp_room :: "int \<Rightarrow> int \<Rightarrow> int \<Rightarrow> int \<Rightarrow> int \<Rightarrow> int \<Rightarrow> Map \<Rightarrow> Map option" where
  "stamp_room W H roomSizeX roomSizeY ax ay m =
     (let halfX = half roomSizeX;
          halfY = half roomSizeY
      in for_loop (- halfX) halfX
           (\<lambda>dxRoom. for_loop (- halfY) halfY
              (\<lambda>dyRoom. stamp_cell W H (ax + dxRoom) (ay + dyRoom))) m)"

text \<open>Lines 141 to 158: the room decision that ends a walk.\<close>

definition room_decision :: "(nat \<Rightarrow> rat) \<Rightarrow> int \<Rightarrow> int \<Rightarrow> int \<Rightarrow> int \<Rightarrow> rat \<Rightarrow> agent \<Rightarrow> agent option" where
  "room_decision chance W H roomSizeX roomSizeY probIncreaseRoom s =
     (if chance (chanceCalls s) < probGenerateRoom s
      then (case stamp_room W H roomSizeX roomSizeY (agentX s) (agentY s) (newMap s) of
              None \<Rightarrow> None
            | Some m \<Rightarrow> Some (s\<lparr>newMap := m, probGenerateRoom := 1 / 10,
                                 chanceCalls := Suc (chanceCalls s)\<rparr>))
      else Some (s\<lparr>probGenerateRoom := probGenerateRoom s + probIncreaseRoom,
                   chanceCalls := Suc (chanceCalls s)\<rparr>))"

text \<open>Lines 106 to 159, the body of the outer loop: \<open>I\<close> steps, then the room decision.\<close>

definition walk :: "(nat \<Rightarrow> rat) \<Rightarrow> (nat \<Rightarrow> int) \<Rightarrow> int \<Rightarrow> int \<Rightarrow> int \<Rightarrow> int \<Rightarrow> int \<Rightarrow> rat \<Rightarrow> rat \<Rightarrow> agent \<Rightarrow> agent option" where
  "walk chance dirDist W H I roomSizeX roomSizeY probIncreaseRoom probIncreaseChange s =
     (case for_loop 0 (I - 1) (\<lambda>i. inner_step chance dirDist W H probIncreaseChange) s of
        None \<Rightarrow> None
      | Some s' \<Rightarrow> room_decision chance W H roomSizeX roomSizeY probIncreaseRoom s')"

text \<open>Lines 97 to 104: the state in which the loops start.\<close>

definition initial_agent :: "Map \<Rightarrow> rat \<Rightarrow> rat \<Rightarrow> int \<Rightarrow> int \<Rightarrow> agent" where
  "initial_agent currentMap pGenerateRoom pChangeDirection ax ay =
     \<lparr>newMap = currentMap, agentX = ax, agentY = ay, dx = 0, dy = 1,
      probGenerateRoom = pGenerateRoom, probChangeDirection = pChangeDirection,
      chanceCalls = 0, dirCalls = 0\<rparr>"

text \<open>The loops of the call, with the whole final state.\<close>

definition drunkAgent_run :: "(nat \<Rightarrow> rat) \<Rightarrow> (nat \<Rightarrow> int) \<Rightarrow> Map \<Rightarrow> int \<Rightarrow> int \<Rightarrow> int \<Rightarrow> int \<Rightarrow> int \<Rightarrow> int \<Rightarrow> rat \<Rightarrow> rat \<Rightarrow> rat \<Rightarrow> rat \<Rightarrow> int \<Rightarrow> int \<Rightarrow> agent option" where
  "drunkAgent_run chance dirDist currentMap W H J I roomSizeX roomSizeY
       pGenerateRoom probIncreaseRoom pChangeDirection probIncreaseChange ax ay =
     for_loop 0 (J - 1)
       (\<lambda>j. walk chance dirDist W H I roomSizeX roomSizeY probIncreaseRoom probIncreaseChange)
       (initial_agent currentMap pGenerateRoom pChangeDirection ax ay)"

text \<open>
  What the caller sees of a call: the returned map, and the position left in the two
  reference parameters.
\<close>

definition drunkAgent :: "(nat \<Rightarrow> rat) \<Rightarrow> (nat \<Rightarrow> int) \<Rightarrow> Map \<Rightarrow> int \<Rightarrow> int \<Rightarrow> int \<Rightarrow> int \<Rightarrow> int \<Rightarrow> int \<Rightarrow> rat \<Rightarrow> rat \<Rightarrow> rat \<Rightarrow> rat \<Rightarrow> int \<Rightarrow> int \<Rightarrow> (Map \<times> int \<times> int) option" where
  "drunkAgent chance dirDist currentMap W H J I roomSizeX roomSizeY
       pGenerateRoom probIncreaseRoom pChangeDirection probIncreaseChange ax ay =
     (case drunkAgent_run chance dirDist currentMap W H J I roomSizeX roomSizeY
             pGenerateRoom probIncreaseRoom pChangeDirection probIncreaseChange ax ay of
        None \<Rightarrow> None
      | Some s \<Rightarrow> Some (newMap s, agentX s, agentY s))"

section \<open>Notions used to state the properties\<close>

text \<open>
  A map of \<open>H\<close> rows with \<open>W\<close> cells each: the map that the caller passes together
  with its dimensions.
\<close>

definition wf_map :: "int \<Rightarrow> int \<Rightarrow> Map \<Rightarrow> bool" where
  "wf_map W H m \<longleftrightarrow> length m = nat H \<and> list_all (\<lambda>row. length row = nat W) m"

text \<open>The cell at a coordinate inside the map, and the map with one cell replaced.\<close>

definition cell :: "Map \<Rightarrow> int \<Rightarrow> int \<Rightarrow> int" where
  "cell m i j = m ! nat i ! nat j"

definition put :: "Map \<Rightarrow> int \<Rightarrow> int \<Rightarrow> int \<Rightarrow> Map" where
  "put m i j v = m[nat i := (m ! nat i)[nat j := v]]"

text \<open>A cell is occupied when it holds 1; a binary map holds only 0 and 1.\<close>

definition occupied :: "Map \<Rightarrow> int \<Rightarrow> int \<Rightarrow> bool" where
  "occupied m i j \<longleftrightarrow> cell m i j = 1"

definition binary_map :: "Map \<Rightarrow> bool" where
  "binary_map m \<longleftrightarrow> list_all (list_all (\<lambda>c. c = 0 \<or> c = 1)) m"

text \<open>The map that keeps bit 0 of every cell.\<close>

definition bit0_map :: "Map \<Rightarrow> Map" where
  "bit0_map m = map (map (\<lambda>c. c AND 1)) m"

definition empty_map :: "nat \<Rightarrow> nat \<Rightarrow> Map" where
  "empty_map h w = replicate h (replicate w 0)"

text \<open>The occupied cells of a map of \<open>H\<close> rows and \<open>W\<close> columns, row by row.\<close>

definition occupied_list :: "int \<Rightarrow> int \<Rightarrow> Map \<Rightarrow> (int \<times> int) list" where
  "occupied_list W H m = filter (\<lambda>(a, b). occupied m a b) (List.product [0..H - 1] [0..W - 1])"

definition occupied_cells :: "int \<Rightarrow> int \<Rightarrow> Map \<Rightarrow> (int \<times> int) set" where
  "occupied_cells W H m = set (occupied_list W H m)"


subsection \<open>The window count as the specification words it\<close>

text \<open>
  The offsets \<open>(dx, dy)\<close> with \<open>dx, dy \<in> [-R, R]\<close>, and the number of window
  coordinates \<open>(i + dx, j + dy)\<close> that are outside the grid or occupied in the map \<open>m\<close>.
\<close>

definition window :: "int \<Rightarrow> (int \<times> int) list" where
  "window R = List.product [- R..R] [- R..R]"

definition counts_as_occupied :: "Map \<Rightarrow> int \<Rightarrow> int \<Rightarrow> int \<Rightarrow> int \<Rightarrow> bool" where
  "counts_as_occupied m W H a b = (if in_range W H a b then occupied m a b else True)"

definition spec_count :: "Map \<Rightarrow> int \<Rightarrow> int \<Rightarrow> int \<Rightarrow> int \<Rightarrow> int \<Rightarrow> int" where
  "spec_count m W H R i j =
     int (length (filter (\<lambda>(a, b). counts_as_occupied m W H (i + a) (j + b)) (window R)))"

text \<open>The window coordinates of cell \<open>(i, j)\<close> inside the grid, and those outside.\<close>

definition inside_count :: "int \<Rightarrow> int \<Rightarrow> int \<Rightarrow> int \<Rightarrow> int \<Rightarrow> nat" where
  "inside_count W H R i j =
     length (filter (\<lambda>(a, b). in_range W H (i + a) (j + b)) (window R))"

definition outside_count :: "int \<Rightarrow> int \<Rightarrow> int \<Rightarrow> int \<Rightarrow> int \<Rightarrow> nat" where
  "outside_count W H R i j =
     length (filter (\<lambda>(a, b). \<not> in_range W H (i + a) (j + b)) (window R))"

subsection \<open>Invariants of the loops\<close>

text \<open>
  What the count loops add for one window coordinate, and the sum over the window before any
  wrap-around.
\<close>

definition bit0_at :: "Map \<Rightarrow> int \<Rightarrow> int \<Rightarrow> int \<Rightarrow> int \<Rightarrow> int" where
  "bit0_at m W H a b = (if in_range W H a b then cell m a b AND 1 else 1)"

definition window_sum :: "Map \<Rightarrow> int \<Rightarrow> int \<Rightarrow> int \<Rightarrow> int \<Rightarrow> int \<Rightarrow> int" where
  "window_sum m W H R i j =
     (\<Sum>a\<leftarrow>[- R..R]. \<Sum>b\<leftarrow>[- R..R]. bit0_at m W H (i + a) (j + b))"

text \<open>
  A sweep over all cells in row-major order that rewrites each cell in place: when the sweep
  stands at \<open>(i, j)\<close>, the cells before it hold their new value \<open>f\<close>, the others the value
  of the map \<open>m\<close> that the sweep started from.
\<close>

definition done_before :: "int \<Rightarrow> int \<Rightarrow> int \<Rightarrow> int \<Rightarrow> bool" where
  "done_before i j a b \<longleftrightarrow> a < i \<or> (a = i \<and> b < j)"

definition sweep_inv :: "Map \<Rightarrow> (int \<Rightarrow> int \<Rightarrow> int) \<Rightarrow> int \<Rightarrow> int \<Rightarrow> int \<Rightarrow> int \<Rightarrow> Map \<Rightarrow> bool" where
  "sweep_inv m f W H i j g \<longleftrightarrow>
     wf_map W H g \<and>
     (\<forall>a b. in_range W H a b \<longrightarrow>
        cell g a b = (if done_before i j a b then f a b else cell m a b))"

text \<open>The cell after the first pass: the old value with the new one in bit 1.\<close>

definition marked :: "Map \<Rightarrow> int \<Rightarrow> int \<Rightarrow> int \<Rightarrow> rat \<Rightarrow> int \<Rightarrow> int \<Rightarrow> int" where
  "marked m W H R U a b =
     cell m a b OR push_bit 1 (new_value R U (wrap32 (window_sum m W H R a b)))"



text \<open>
  A map that came from another by writing 1 into cells, and a part of a call of the agent that
  only does that and keeps a position inside the grid inside.
\<close>

definition grown :: "int \<Rightarrow> int \<Rightarrow> Map \<Rightarrow> Map \<Rightarrow> bool" where
  "grown W H m m' \<longleftrightarrow>
     wf_map W H m' \<and>
     (\<forall>a b. in_range W H a b \<longrightarrow> cell m' a b = cell m a b \<or> cell m' a b = 1)"

definition keeps :: "int \<Rightarrow> int \<Rightarrow> agent \<Rightarrow> agent \<Rightarrow> bool" where
  "keeps W H s s' \<longleftrightarrow>
     grown W H (newMap s) (newMap s') \<and>
     (in_range W H (agentX s) (agentY s) \<longrightarrow> in_range W H (agentX s') (agentY s'))"

subsection \<open>A sequence of calls of the agent\<close>

text \<open>
  A driver calls \<open>drunkAgent\<close> again and again with the map and the position that the call
  before left, as \<^verbatim>\<open>main\<close> does in its loop. Each call seeds a random source of its own and
  may be given parameters of its own.
\<close>

record call =
  c_chance :: "nat \<Rightarrow> rat"
  c_dirDist :: "nat \<Rightarrow> int"
  c_J :: int
  c_I :: int
  c_roomSizeX :: int
  c_roomSizeY :: int
  c_probGenerateRoom :: rat
  c_probIncreaseRoom :: rat
  c_probChangeDirection :: rat
  c_probIncreaseChange :: rat

fun drunkAgent_calls :: "int \<Rightarrow> int \<Rightarrow> call list \<Rightarrow> Map \<times> int \<times> int \<Rightarrow> (Map \<times> int \<times> int) option" where
  "drunkAgent_calls W H [] st = Some st"
| "drunkAgent_calls W H (c # cs) (m, ax, ay) =
     (case drunkAgent (c_chance c) (c_dirDist c) m W H (c_J c) (c_I c)
             (c_roomSizeX c) (c_roomSizeY c) (c_probGenerateRoom c) (c_probIncreaseRoom c)
             (c_probChangeDirection c) (c_probIncreaseChange c) ax ay of
        None \<Rightarrow> None
      | Some st' \<Rightarrow> drunkAgent_calls W H cs st')"

subsection \<open>Headings and concrete draws\<close>

text \<open>The heading \<open>(dx, dy)\<close> that a value of \<^verbatim>\<open>dirDist\<close> selects.\<close>

definition heading :: "int \<Rightarrow> int \<times> int" where
  "heading dir = (dir_dx dir, dir_dy dir)"

text \<open>
  Draws for a call in which the first test of the direction change fires and the second test
  draws 0.3.
\<close>

definition turn_chance :: "nat \<Rightarrow> rat" where
  "turn_chance k = (if k = 0 then 0 else if k = 1 then 3 / 10 else 9 / 10)"

definition turn_dirDist :: "nat \<Rightarrow> int" where
  "turn_dirDist k = (if k = 0 then 0 else 1)"



section \<open>Maps and loops\<close>

lemma cell_at_wf: "wf_map W H m \<Longrightarrow> in_range W H i j \<Longrightarrow> cell_at m i j = Some (cell m i j)"
  by (simp add: cell_at_def cell_def in_range_def wf_map_def list_all_length)

lemma cell_set_wf: "wf_map W H m \<Longrightarrow> in_range W H i j \<Longrightarrow> cell_set m i j v = Some (put m i j v)"
  by (simp add: cell_set_def put_def in_range_def wf_map_def list_all_length)

lemma wf_put: "wf_map W H m \<Longrightarrow> wf_map W H (put m i j v)"
proof -
  assume wf: "wf_map W H m"
  have "length (put m i j v ! n) = nat W" if "n < nat H" for n
  proof (cases "n = nat i")
    case True
    then show ?thesis using wf that by (simp add: put_def wf_map_def list_all_length)
  next
    case False
    then show ?thesis using wf that by (simp add: put_def wf_map_def list_all_length)
  qed
  then show ?thesis using wf by (simp add: wf_map_def list_all_length put_def)
qed

lemma cell_put:
  "wf_map W H m \<Longrightarrow> in_range W H i j \<Longrightarrow> in_range W H a b \<Longrightarrow>
   cell (put m i j v) a b = (if a = i \<and> b = j then v else cell m a b)"
  by (auto simp: put_def cell_def wf_map_def list_all_length nth_list_update in_range_def)

lemma for_loop_invariant:
  assumes "P k s"
    and "\<And>i t. k \<le> i \<Longrightarrow> i \<le> kmax \<Longrightarrow> P i t \<Longrightarrow> \<exists>t'. body i t = Some t' \<and> P (i + 1) t'"
  shows "\<exists>t. for_loop k kmax body s = Some t \<and> P (max k (kmax + 1)) t"
  using assms
proof (induction k kmax body s rule: for_loop.induct)
  case (1 k kmax body s)
  show ?case
  proof (cases "k \<le> kmax")
    case True
    from "1.prems"(2)[OF _ True "1.prems"(1)] obtain t' where t': "body k s = Some t'" "P (k + 1) t'"
      by auto
    have "\<exists>t. for_loop (k + 1) kmax body t' = Some t \<and> P (max (k + 1) (kmax + 1)) t"
    proof (rule "1.IH"[OF True t'(1) t'(2)])
      fix i t assume "k + 1 \<le> i" "i \<le> kmax" "P i t"
      then show "\<exists>t'. body i t = Some t' \<and> P (i + 1) t'"
        using "1.prems"(2)[of i t] by simp
    qed
    moreover have "max (k + 1) (kmax + 1) = max k (kmax + 1)" using True by simp
    ultimately show ?thesis using True t'(1) by (subst for_loop.simps) simp
  next
    case False
    then have "max k (kmax + 1) = k" by simp
    then show ?thesis using False "1.prems"(1) by (subst for_loop.simps) simp
  qed
qed

lemma for_loop_preserves:
  assumes "Q s"
    and "\<And>i t. k \<le> i \<Longrightarrow> i \<le> kmax \<Longrightarrow> Q t \<Longrightarrow> \<exists>t'. body i t = Some t' \<and> Q t'"
  shows "\<exists>t. for_loop k kmax body s = Some t \<and> Q t"
proof -
  have "\<exists>t. for_loop k kmax body s = Some t \<and> (\<lambda>_. Q) (max k (kmax + 1)) t"
    by (rule for_loop_invariant[where P = "\<lambda>_. Q"]) (use assms in auto)
  then show ?thesis by simp
qed

lemma wrap32_id: "- 2147483648 \<le> x \<Longrightarrow> x \<le> 2147483647 \<Longrightarrow> wrap32 x = x"
  by (simp add: wrap32_def)

lemma wrap32_wrap32: "wrap32 (wrap32 x) = wrap32 x"
  by (simp add: wrap32_def)

lemma wrap32_add_left: "wrap32 (wrap32 x + y) = wrap32 (x + y)"
proof -
  have "(wrap32 x + y + 2147483648) mod 4294967296 = (x + y + 2147483648) mod 4294967296"
    unfolding wrap32_def by (simp add: mod_simps algebra_simps)
  then show ?thesis by (simp add: wrap32_def)
qed

lemma for_loop_add:
  assumes "\<And>i c. wrap32 c = c \<Longrightarrow> body i c = Some (wrap32 (c + f i))"
    and "wrap32 c = c"
  shows "for_loop k kmax body c = Some (wrap32 (c + sum_list (map f [k..kmax])))"
  using assms
proof (induction k kmax body c rule: for_loop.induct)
  case (1 k kmax body c)
  show ?case
  proof (cases "k \<le> kmax")
    case True
    have step: "body k c = Some (wrap32 (c + f k))"
      by (rule "1.prems"(1)) (rule "1.prems"(2))
    have "for_loop (k + 1) kmax body (wrap32 (c + f k)) =
            Some (wrap32 (wrap32 (c + f k) + sum_list (map f [k + 1..kmax])))"
      by (rule "1.IH"[OF True step]) (simp_all add: "1.prems"(1) wrap32_wrap32)
    then show ?thesis using True step
      by (subst for_loop.simps, subst upto.simps) (simp add: add.assoc wrap32_add_left)
  next
    case False
    then show ?thesis using "1.prems"(2) by (subst for_loop.simps) simp
  qed
qed

section \<open>Properties of cellularAutomata\<close>

lemma count_cell_wf:
  "wf_map W H m \<Longrightarrow>
     count_cell m W H i j a b c = Some (wrap32 (c + bit0_at m W H (i + a) (j + b)))"
  by (simp add: count_cell_def bit0_at_def cell_at_wf Let_def)

lemma count_window_wf:
  assumes "wf_map W H m"
  shows "count_window m W H R i j = Some (wrap32 (window_sum m W H R i j))"
proof -
  have inner: "for_loop (- R) R (\<lambda>b. count_cell m W H i j a b) c
      = Some (wrap32 (c + (\<Sum>b\<leftarrow>[- R..R]. bit0_at m W H (i + a) (j + b))))"
    if "wrap32 c = c" for a c
    by (rule for_loop_add) (simp_all add: count_cell_wf[OF assms] that)
  have "for_loop (- R) R (\<lambda>a. for_loop (- R) R (\<lambda>b. count_cell m W H i j a b)) 0
      = Some (wrap32 (0 + (\<Sum>a\<leftarrow>[- R..R]. \<Sum>b\<leftarrow>[- R..R]. bit0_at m W H (i + a) (j + b))))"
  proof (rule for_loop_add)
    fix a c :: int assume "wrap32 c = c"
    then show "for_loop (- R) R (\<lambda>b. count_cell m W H i j a b) c
      = Some (wrap32 (c + (\<Sum>b\<leftarrow>[- R..R]. bit0_at m W H (i + a) (j + b))))"
      by (rule inner)
  next
    show "wrap32 0 = 0" by (simp add: wrap32_def)
  qed
  then show ?thesis by (simp add: count_window_def window_sum_def)
qed

lemma window_sum_cong:
  assumes "\<And>a b. in_range W H a b \<Longrightarrow> cell g a b AND 1 = cell m a b AND 1"
  shows "window_sum g W H R i j = window_sum m W H R i j"
proof -
  have "bit0_at g W H a b = bit0_at m W H a b" for a b
    using assms by (simp add: bit0_at_def)
  then show ?thesis by (simp add: window_sum_def)
qed

lemma new_value_cases: "new_value R U c = 0 \<or> new_value R U c = 1"
  by (simp add: new_value_def Let_def)

lemma or_two_bit0: "(x OR 2) AND 1 = x AND (1::int)"
  by (rule bit_eqI) (auto simp: bit_and_iff bit_or_iff bit_1_iff)

lemma or_two_bit1: "drop_bit 1 (x OR 2) AND 1 = (1::int)"
  by (rule bit_eqI) (auto simp: bit_and_iff bit_or_iff bit_1_iff bit_drop_bit_eq)

lemma or_mark_bit0:
  assumes "v = 0 \<or> v = 1"
  shows "(x OR push_bit 1 v) AND 1 = x AND (1::int)"
proof -
  have "push_bit 1 v = 0 \<or> push_bit 1 v = 2" using assms by auto
  then show ?thesis using or_two_bit0[of x] by auto
qed

lemma mark_then_shift:
  assumes "v = 0 \<or> v = 1"
  shows "drop_bit 1 (x OR push_bit 1 v) AND 1 = (if v = 1 then 1 else drop_bit 1 x AND (1::int))"
proof (cases "v = 1")
  case True
  then have "push_bit 1 v = 2" by simp
  have "drop_bit 1 (x OR push_bit 1 v) AND 1 = drop_bit 1 (x OR 2) AND 1"
    using \<open>push_bit 1 v = 2\<close> by (simp only:)
  also have "\<dots> = 1" by (rule or_two_bit1)
  finally show ?thesis using True by simp
next
  case False
  then have "push_bit 1 v = 0" using assms by simp
  then show ?thesis using False by (simp only: if_False or.right_neutral)
qed

lemma and_one_cases: "(x::int) AND 1 = 0 \<or> x AND 1 = 1"
  by (simp add: and_one_eq) presburger

text \<open>A sweep over all cells in row-major order that rewrites each cell in place.\<close>

lemma sweep_inv_put:
  assumes inv: "sweep_inv m f W H i j g" and ij: "in_range W H i j"
  shows "sweep_inv m f W H i (j + 1) (put g i j (f i j))"
proof -
  have wf: "wf_map W H g" using inv by (simp add: sweep_inv_def)
  have "cell (put g i j (f i j)) a b = (if done_before i (j + 1) a b then f a b else cell m a b)"
    if ab: "in_range W H a b" for a b
  proof -
    have old: "cell g a b = (if done_before i j a b then f a b else cell m a b)"
      using inv ab by (simp add: sweep_inv_def)
    show ?thesis
    proof (cases "a = i \<and> b = j")
      case True
      then show ?thesis using cell_put[OF wf ij ab, of "f i j"] by (simp add: done_before_def)
    next
      case False
      then have same: "done_before i (j + 1) a b = done_before i j a b"
        by (auto simp: done_before_def)
      have "cell (put g i j (f i j)) a b = cell g a b"
        using cell_put[OF wf ij ab, of "f i j"] False by auto
      then show ?thesis using old same by simp
    qed
  qed
  then show ?thesis using wf_put[OF wf] by (simp add: sweep_inv_def)
qed

lemma sweep_row:
  assumes inv: "sweep_inv m f W H i 0 g" and i: "0 \<le> i" "i < H"
    and body: "\<And>j t. in_range W H i j \<Longrightarrow> sweep_inv m f W H i j t \<Longrightarrow>
                 body j t = Some (put t i j (f i j))"
  shows "\<exists>g'. for_loop 0 (W - 1) body g = Some g' \<and> sweep_inv m f W H (i + 1) 0 g'"
proof -
  have "\<exists>g'. for_loop 0 (W - 1) body g = Some g' \<and> sweep_inv m f W H i (max 0 (W - 1 + 1)) g'"
  proof (rule for_loop_invariant[where P = "\<lambda>j. sweep_inv m f W H i j"])
    show "sweep_inv m f W H i 0 g" by (rule inv)
  next
    fix j t assume j: "0 \<le> j" "j \<le> W - 1" and t: "sweep_inv m f W H i j t"
    have ij: "in_range W H i j" using i j by (simp add: in_range_def)
    show "\<exists>t'. body j t = Some t' \<and> sweep_inv m f W H i (j + 1) t'"
      using body[OF ij t] sweep_inv_put[OF t ij] by simp
  qed
  then obtain g' where run: "for_loop 0 (W - 1) body g = Some g'"
    and g': "sweep_inv m f W H i (max 0 (W - 1 + 1)) g'" by blast
  have "done_before (i + 1) 0 a b = done_before i (max 0 (W - 1 + 1)) a b"
    if "in_range W H a b" for a b
    using that by (auto simp: done_before_def in_range_def)
  then have "sweep_inv m f W H (i + 1) 0 g'"
    using g' by (simp add: sweep_inv_def)
  with run show ?thesis by blast
qed

lemma sweep_cells:
  assumes wf: "wf_map W H m"
    and body: "\<And>i j t. in_range W H i j \<Longrightarrow> sweep_inv m f W H i j t \<Longrightarrow>
                 body i j t = Some (put t i j (f i j))"
  shows "\<exists>g. for_loop 0 (H - 1) (\<lambda>i. for_loop 0 (W - 1) (body i)) m = Some g \<and>
             wf_map W H g \<and> (\<forall>a b. in_range W H a b \<longrightarrow> cell g a b = f a b)"
proof -
  have "\<exists>g. for_loop 0 (H - 1) (\<lambda>i. for_loop 0 (W - 1) (body i)) m = Some g \<and>
           sweep_inv m f W H (max 0 (H - 1 + 1)) 0 g"
  proof (rule for_loop_invariant[where P = "\<lambda>i. sweep_inv m f W H i 0"])
    show "sweep_inv m f W H 0 0 m"
      using wf by (simp add: sweep_inv_def done_before_def in_range_def)
  next
    fix i t assume i: "0 \<le> i" "i \<le> H - 1" and t: "sweep_inv m f W H i 0 t"
    show "\<exists>t'. for_loop 0 (W - 1) (body i) t = Some t' \<and> sweep_inv m f W H (i + 1) 0 t'"
      using t i(1) by (rule sweep_row) (use i body in simp_all)
  qed
  then obtain g where run: "for_loop 0 (H - 1) (\<lambda>i. for_loop 0 (W - 1) (body i)) m = Some g"
    and inv: "sweep_inv m f W H (max 0 (H - 1 + 1)) 0 g" by blast
  have "cell g a b = f a b" if ab: "in_range W H a b" for a b
  proof -
    have "done_before (max 0 (H - 1 + 1)) 0 a b"
      using ab by (simp add: done_before_def in_range_def)
    then show ?thesis using inv ab by (simp add: sweep_inv_def)
  qed
  moreover have "wf_map W H g" using inv by (simp add: sweep_inv_def)
  ultimately show ?thesis using run by blast
qed

text \<open>The first pass.\<close>

lemma marked_bit0: "marked m W H R U a b AND 1 = cell m a b AND 1"
  unfolding marked_def by (rule or_mark_bit0) (rule new_value_cases)

lemma update_cell_sweep:
  assumes inv: "sweep_inv m (marked m W H R U) W H i j g" and ij: "in_range W H i j"
  shows "update_cell W H R U i j g = Some (put g i j (marked m W H R U i j))"
proof -
  have wf: "wf_map W H g" using inv by (simp add: sweep_inv_def)
  have "cell g a b AND 1 = cell m a b AND 1" if ab: "in_range W H a b" for a b
  proof -
    have "cell g a b = (if done_before i j a b then marked m W H R U a b else cell m a b)"
      using inv ab by (simp add: sweep_inv_def)
    then show ?thesis by (cases "done_before i j a b") (simp_all add: marked_bit0)
  qed
  then have ws: "window_sum g W H R i j = window_sum m W H R i j"
    by (rule window_sum_cong)
  have here: "cell g i j = cell m i j"
    using inv ij by (simp add: sweep_inv_def done_before_def)
  show ?thesis
    by (simp add: update_cell_def count_window_wf[OF wf] ws cell_at_wf[OF wf ij] here
        cell_set_wf[OF wf ij] marked_def)
qed

lemma first_pass_marks:
  assumes wf: "wf_map W H m"
  shows "\<exists>g. first_pass W H R U m = Some g \<and> wf_map W H g \<and>
             (\<forall>a b. in_range W H a b \<longrightarrow> cell g a b = marked m W H R U a b)"
  unfolding first_pass_def using wf
  by (rule sweep_cells) (rule update_cell_sweep)

text \<open>The second pass.\<close>

lemma finish_cell_sweep:
  assumes inv: "sweep_inv m (\<lambda>a b. drop_bit 1 (cell m a b) AND 1) W H i j g"
    and ij: "in_range W H i j"
  shows "finish_cell i j g = Some (put g i j (drop_bit 1 (cell m i j) AND 1))"
proof -
  have wf: "wf_map W H g" using inv by (simp add: sweep_inv_def)
  have here: "cell g i j = cell m i j"
    using inv ij by (simp add: sweep_inv_def done_before_def)
  show ?thesis
    by (simp add: finish_cell_def cell_at_wf[OF wf ij] here cell_set_wf[OF wf ij])
qed

lemma second_pass_shifts:
  assumes wf: "wf_map W H m"
  shows "\<exists>g. second_pass W H m = Some g \<and> wf_map W H g \<and>
             (\<forall>a b. in_range W H a b \<longrightarrow> cell g a b = drop_bit 1 (cell m a b) AND 1)"
  unfolding second_pass_def using wf
  by (rule sweep_cells) (rule finish_cell_sweep)

text \<open>Both passes.\<close>

lemma cellularAutomata_cells:
  assumes wf: "wf_map W H m"
  shows "\<exists>m'. cellularAutomata m W H R U = Some m' \<and> wf_map W H m' \<and>
           (\<forall>a b. in_range W H a b \<longrightarrow>
              cell m' a b = (if new_value R U (wrap32 (window_sum m W H R a b)) = 1 then 1
                             else drop_bit 1 (cell m a b) AND 1))"
proof -
  from first_pass_marks[OF wf] obtain g where g: "first_pass W H R U m = Some g" "wf_map W H g"
    "\<And>a b. in_range W H a b \<Longrightarrow> cell g a b = marked m W H R U a b" by blast
  from second_pass_shifts[OF g(2)] obtain m' where m': "second_pass W H g = Some m'"
    "wf_map W H m'"
    "\<And>a b. in_range W H a b \<Longrightarrow> cell m' a b = drop_bit 1 (cell g a b) AND 1" by blast
  have "cell m' a b = (if new_value R U (wrap32 (window_sum m W H R a b)) = 1 then 1
                             else drop_bit 1 (cell m a b) AND 1)" if ab: "in_range W H a b" for a b
    unfolding m'(3)[OF ab] g(3)[OF ab] marked_def
    by (rule mark_then_shift) (rule new_value_cases)
  then show ?thesis using g(1) m'(1,2) by (simp add: cellularAutomata_def)
qed

subsection \<open>The synchronous update\<close>

lemma binary_mapD:
  "binary_map m \<Longrightarrow> wf_map W H m \<Longrightarrow> in_range W H a b \<Longrightarrow> cell m a b = 0 \<or> cell m a b = 1"
  by (simp add: binary_map_def wf_map_def list_all_length in_range_def cell_def)

lemma binary_mapI:
  assumes wf: "wf_map W H m"
    and cells: "\<And>a b. in_range W H a b \<Longrightarrow> cell m a b = 0 \<or> cell m a b = 1"
  shows "binary_map m"
proof -
  have "m ! n ! k = 0 \<or> m ! n ! k = 1" if "n < length m" "k < length (m ! n)" for n k
  proof -
    have "length (m ! n) = nat W" using wf that(1) by (simp add: wf_map_def list_all_length)
    then have "int n < H" "int k < W"
      using wf that by (simp_all add: wf_map_def)
    then have "in_range W H (int n) (int k)"
      by (simp add: in_range_def)
    from cells[OF this] show ?thesis by (simp add: cell_def)
  qed
  then show ?thesis by (simp add: binary_map_def list_all_length)
qed

lemma length_filter_product:
  "int (length (filter P (List.product xs ys))) =
     (\<Sum>a\<leftarrow>xs. \<Sum>b\<leftarrow>ys. if P (a, b) then 1 else 0)"
proof (induction xs)
  case Nil
  then show ?case by simp
next
  case (Cons x xs)
  have "int (length (filter P (map (Pair x) ys))) = (\<Sum>b\<leftarrow>ys. if P (x, b) then 1 else 0)"
    by (induction ys) simp_all
  with Cons show ?case by simp
qed

lemma window_sum_spec_count:
  assumes wf: "wf_map W H m" and bin: "binary_map m"
  shows "window_sum m W H R i j = spec_count m W H R i j"
proof -
  have "bit0_at m W H a b = (if counts_as_occupied m W H a b then 1 else 0)" for a b
  proof (cases "in_range W H a b")
    case True
    from binary_mapD[OF bin wf True] show ?thesis
      using True by (auto simp: bit0_at_def counts_as_occupied_def occupied_def)
  next
    case False
    then show ?thesis by (simp add: bit0_at_def counts_as_occupied_def)
  qed
  then show ?thesis
    by (simp add: window_sum_def spec_count_def window_def length_filter_product)
qed

lemma spec_count_bounds:
  "0 \<le> spec_count m W H R i j \<and> spec_count m W H R i j \<le> (2 * R + 1)^2"
proof -
  let ?n = "length (filter (\<lambda>(a, b). counts_as_occupied m W H (i + a) (j + b)) (window R))"
  have "?n \<le> length (window R)"
    by (rule length_filter_le)
  also have "\<dots> = nat (2 * R + 1) * nat (2 * R + 1)"
    by (simp add: window_def)
  finally have "int ?n \<le> int (nat (2 * R + 1) * nat (2 * R + 1))"
    by (rule of_nat_mono)
  moreover have "int (nat (2 * R + 1) * nat (2 * R + 1)) \<le> (2 * R + 1) * (2 * R + 1)"
  proof (cases "0 \<le> 2 * R + 1")
    case True
    then show ?thesis by simp
  next
    case False
    then have "nat (2 * R + 1) = 0" by simp
    then show ?thesis by (simp only: mult_zero_left of_nat_0 zero_le_square)
  qed
  ultimately have "int ?n \<le> (2 * R + 1) * (2 * R + 1)" by linarith
  then show ?thesis by (simp add: power2_eq_square spec_count_def)
qed

lemma small_square:
  fixes x :: int
  assumes "x^2 \<le> 2147483647"
  shows "\<bar>x\<bar> < 46341"
proof (rule ccontr)
  assume "\<not> \<bar>x\<bar> < 46341"
  then have "46341 \<le> \<bar>x\<bar>" by simp
  then have "46341^2 \<le> \<bar>x\<bar>^2" by (rule power_mono) simp
  then show False using assms by simp
qed

lemma new_value_small:
  assumes "(2 * R + 1)^2 \<le> 2147483647"
  shows "new_value R U c =
           (if U \<le> round_double (of_int c / of_int ((2 * R + 1)^2)) then 1 else 0)"
proof -
  have side: "\<bar>2 * R + 1\<bar> < 46341" using assms by (rule small_square)
  then have "wrap32 (2 * R) = 2 * R" by (intro wrap32_id) simp_all
  moreover have "wrap32 (2 * R + 1) = 2 * R + 1" using side by (intro wrap32_id) simp_all
  moreover have "wrap32 ((2 * R + 1) * (2 * R + 1)) = (2 * R + 1) * (2 * R + 1)"
  proof (rule wrap32_id)
    have "0 \<le> (2 * R + 1) * (2 * R + 1)" by (rule zero_le_square)
    then show "- 2147483648 \<le> (2 * R + 1) * (2 * R + 1)" by linarith
    show "(2 * R + 1) * (2 * R + 1) \<le> 2147483647"
      using assms by (simp add: power2_eq_square)
  qed
  ultimately show ?thesis by (simp add: new_value_def Let_def power2_eq_square)
qed

lemma wf_map_single: "wf_map 1 1 m \<Longrightarrow> m = [[cell m 0 0]]"
  by (cases m; cases "hd m") (auto simp: wf_map_def cell_def)

lemma length_filter_other:
  "distinct xs \<Longrightarrow> x \<in> set xs \<Longrightarrow> length (filter (\<lambda>p. p \<noteq> x) xs) + 1 = length xs"
proof (induction xs)
  case Nil
  then show ?case by simp
next
  case (Cons y ys)
  show ?case
  proof (cases "y = x")
    case True
    then have "filter (\<lambda>p. p \<noteq> x) ys = ys" using Cons.prems(1) by (auto simp: filter_id_conv)
    with True show ?thesis by simp
  next
    case False
    then show ?thesis using Cons by simp
  qed
qed

lemma spec_count_single:
  assumes "0 \<le> R"
  shows "spec_count [[0]] 1 1 R 0 0 = (2 * R + 1)^2 - 1"
proof -
  have "counts_as_occupied [[0]] 1 1 (0 + a) (0 + b) \<longleftrightarrow> (a, b) \<noteq> (0, 0)" for a b
    by (auto simp: counts_as_occupied_def in_range_def occupied_def cell_def)
  then have "filter (\<lambda>(a, b). counts_as_occupied [[0]] 1 1 (0 + a) (0 + b)) (window R) =
        filter (\<lambda>p. p \<noteq> (0, 0)) (window R)"
    by (intro filter_cong) auto
  moreover have "length (filter (\<lambda>p. p \<noteq> (0, 0)) (window R)) + 1 = length (window R)"
    using assms by (intro length_filter_other) (simp_all add: window_def distinct_product)
  moreover have "int (length (window R)) = (2 * R + 1)^2"
    using assms by (simp add: window_def power2_eq_square)
  ultimately show ?thesis by (simp add: spec_count_def)
qed

text \<open>
  Claim C1, as stated, fails at two inputs.

  On the empty 3 by 3 map with \<open>R = 1\<close> the count of a corner cell is 5. The threshold
  \<open>U = 5003999585967218 / 2\<^sup>5\<^sup>3\<close> is the double nearest to 5/9 and lies above 5/9, so
  \<open>count / (2R+1)\<^sup>2 \<ge> U\<close> is false; the quotient that the code computes is that double, and
  the corner cells become occupied.

  On the map of one empty cell with \<open>R = 23170\<close> and \<open>U = 1\<close> the count is
  \<open>46341\<^sup>2 - 1\<close>, below \<open>(2R+1)\<^sup>2\<close>; in 32 bits both numbers wrap around to negative numbers
  whose quotient is above 1, and the cell becomes occupied.
\<close>

theorem cellularAutomata_exact_counterexample:
  "cellularAutomata (empty_map 3 3) 3 3 1 (5003999585967218 / 2 ^ 53)
     = Some [[1, 0, 1], [0, 0, 0], [1, 0, 1]] \<and>
   spec_count (empty_map 3 3) 3 3 1 0 0 = 5 \<and>
   \<not> ((5003999585967218 / 2 ^ 53 :: rat) \<le> 5 / (2 * 1 + 1)^2) \<and>
   cellularAutomata [[0]] 1 1 23170 1 = Some [[1]] \<and>
   spec_count [[0]] 1 1 23170 0 0 = 2147488280 \<and>
   \<not> ((1 :: rat) \<le> 2147488280 / (2 * 23170 + 1)^2)"
proof -
  have rounding: "cellularAutomata (empty_map 3 3) 3 3 1 (5003999585967218 / 2 ^ 53)
     = Some [[1, 0, 1], [0, 0, 0], [1, 0, 1]] \<and>
   spec_count (empty_map 3 3) 3 3 1 0 0 = 5 \<and>
   \<not> ((5003999585967218 / 2 ^ 53 :: rat) \<le> 5 / (2 * 1 + 1)^2)"
    by code_simp
  have wf: "wf_map 1 1 [[0]]" by (simp add: wf_map_def)
  have bin: "binary_map [[0]]" by (simp add: binary_map_def)
  have count: "spec_count [[0]] 1 1 23170 0 0 = 2147488280"
    using spec_count_single[of 23170] by simp
  have new: "new_value 23170 1 (wrap32 2147488280) = 1" by code_simp
  from cellularAutomata_cells[OF wf, of 23170 1] obtain m' where
    run: "cellularAutomata [[0]] 1 1 23170 1 = Some m'" and wf': "wf_map 1 1 m'"
    and cells: "\<And>a b. in_range 1 1 a b \<Longrightarrow>
       cell m' a b = (if new_value 23170 1 (wrap32 (window_sum [[0]] 1 1 23170 a b)) = 1 then 1
                      else drop_bit 1 (cell [[0]] a b) AND 1)"
    by blast
  have "cell m' 0 0 = 1"
    using cells[of 0 0] new by (simp add: in_range_def window_sum_spec_count[OF wf bin] count)
  with wf_map_single[OF wf'] have "m' = [[1]]" by simp
  with run have "cellularAutomata [[0]] 1 1 23170 1 = Some [[1]]" by simp
  moreover have "\<not> ((1 :: rat) \<le> 2147488280 / (2 * 23170 + 1)^2)" by simp
  ultimately show ?thesis using rounding count by blast
qed

text \<open>
  Claim C1, amended. For a map of \<open>H\<close> rows and \<open>W\<close> columns whose cells are all 0 or 1, a
  radius \<open>R\<close> with \<open>(2R+1)\<^sup>2\<close> at most \<open>2\<^sup>3\<^sup>1 - 1\<close> and any threshold \<open>U\<close>,
  \<open>cellularAutomata\<close> returns a map of the same dimensions whose cells are 0 or 1, and cell
  \<open>(i, j)\<close> of it is occupied exactly when the double nearest to \<open>count / (2R+1)\<^sup>2\<close> is at
  least \<open>U\<close>, where \<open>count\<close> is the number of window coordinates that lie outside the grid or
  are occupied in the input map. The count of every cell is the one of the input map,
  although the first pass writes into the map that it reads.
\<close>

theorem cellularAutomata_synchronous:
  assumes wf: "wf_map W H m" and bin: "binary_map m"
    and small: "(2 * R + 1)^2 \<le> 2147483647"
  shows "\<exists>m'. cellularAutomata m W H R U = Some m' \<and> wf_map W H m' \<and> binary_map m' \<and>
           (\<forall>i j. in_range W H i j \<longrightarrow>
              (occupied m' i j \<longleftrightarrow>
                 U \<le> round_double (of_int (spec_count m W H R i j) / of_int ((2 * R + 1)^2))))"
proof -
  from cellularAutomata_cells[OF wf] obtain m' where
    run: "cellularAutomata m W H R U = Some m'" and wf': "wf_map W H m'"
    and cells: "\<And>a b. in_range W H a b \<Longrightarrow>
       cell m' a b = (if new_value R U (wrap32 (window_sum m W H R a b)) = 1 then 1
                      else drop_bit 1 (cell m a b) AND 1)"
    by blast
  have new: "cell m' a b =
      (if U \<le> round_double (of_int (spec_count m W H R a b) / of_int ((2 * R + 1)^2))
       then 1 else 0)" if ab: "in_range W H a b" for a b
  proof -
    have "drop_bit 1 (cell m a b) AND 1 = 0"
      using binary_mapD[OF bin wf ab] by auto
    moreover have "wrap32 (spec_count m W H R a b) = spec_count m W H R a b"
      using spec_count_bounds[of m W H R a b] small by (intro wrap32_id) simp_all
    ultimately show ?thesis
      using cells[OF ab]
      by (simp add: new_value_small[OF small] window_sum_spec_count[OF wf bin])
  qed
  have "binary_map m'"
    using wf' by (rule binary_mapI) (simp add: new)
  moreover have "occupied m' a b \<longleftrightarrow>
      U \<le> round_double (of_int (spec_count m W H R a b) / of_int ((2 * R + 1)^2))"
    if ab: "in_range W H a b" for a b
    by (simp add: occupied_def new[OF ab])
  ultimately show ?thesis using run wf' by blast
qed

theorem cellularAutomata_synchronous_witness:
  "wf_map 2 2 [[0, 1], [1, 1]] \<and> binary_map [[0, 1], [1, 1]] \<and>
   (2 * 1 + 1)^2 \<le> (2147483647 :: int) \<and>
   spec_count [[0, 1], [1, 1]] 2 2 1 0 0 = 8 \<and>
   (1 / 2 :: rat) \<le> round_double (8 / 9) \<and>
   (\<exists>m'. cellularAutomata [[0, 1], [1, 1]] 2 2 1 (1 / 2) = Some m' \<and> occupied m' 0 0)"
proof -
  have wf: "wf_map 2 2 [[0, 1], [1, 1]]" by (simp add: wf_map_def)
  have bin: "binary_map [[0, 1], [1, 1]]" by (simp add: binary_map_def)
  have small: "(2 * 1 + 1)^2 \<le> (2147483647 :: int)" by simp
  have c: "spec_count [[0, 1], [1, 1]] 2 2 1 0 0 = 8" by code_simp
  have q: "(1 / 2 :: rat) \<le> round_double (8 / 9)" by code_simp
  have r: "in_range 2 2 0 0" by (simp add: in_range_def)
  from cellularAutomata_synchronous[OF wf bin small, of "1 / 2"] obtain m' where
    "cellularAutomata [[0, 1], [1, 1]] 2 2 1 (1 / 2) = Some m'"
    "\<forall>i j. in_range 2 2 i j \<longrightarrow>
       (occupied m' i j \<longleftrightarrow>
          (1 / 2 :: rat) \<le> round_double
             (of_int (spec_count [[0, 1], [1, 1]] 2 2 1 i j) / of_int ((2 * 1 + 1)^2)))"
    by blast
  then have "cellularAutomata [[0, 1], [1, 1]] 2 2 1 (1 / 2) = Some m' \<and> occupied m' 0 0"
    using r c q by simp
  then show ?thesis using wf bin small c q by blast
qed

subsection \<open>Binary cells after every step\<close>

lemma wf_bit0_map: "wf_map W H m \<Longrightarrow> wf_map W H (bit0_map m)"
  by (simp add: wf_map_def bit0_map_def list_all_length)

lemma cell_bit0_map:
  "wf_map W H m \<Longrightarrow> in_range W H a b \<Longrightarrow> cell (bit0_map m) a b = cell m a b AND 1"
  by (simp add: wf_map_def bit0_map_def list_all_length cell_def in_range_def)

lemma count_window_bit0:
  assumes wf: "wf_map W H m"
  shows "count_window m W H R i j = count_window (bit0_map m) W H R i j"
proof -
  have "window_sum (bit0_map m) W H R i j = window_sum m W H R i j"
    by (rule window_sum_cong) (simp add: cell_bit0_map[OF wf])
  then show ?thesis
    by (simp add: count_window_wf[OF wf] count_window_wf[OF wf_bit0_map[OF wf]])
qed

text \<open>
  Claim C9. For a map of \<open>H\<close> rows and \<open>W\<close> columns whose cells are arbitrary integers,
  \<open>cellularAutomata\<close> returns a map of the same dimensions in which every cell is 0 or 1:
  every cell of the result is bit 1 of the cell that the first pass left, and the count loops
  see no more of a map than bit 0 of its cells.
\<close>

theorem cellularAutomata_binary:
  assumes wf: "wf_map W H m"
  shows "\<exists>g m'. first_pass W H R U m = Some g \<and> second_pass W H g = Some m' \<and>
           cellularAutomata m W H R U = Some m' \<and> wf_map W H m' \<and> binary_map m' \<and>
           (\<forall>i j. in_range W H i j \<longrightarrow> cell m' i j = drop_bit 1 (cell g i j) AND 1) \<and>
           (\<forall>i j. count_window m W H R i j = count_window (bit0_map m) W H R i j)"
proof -
  from first_pass_marks[OF wf] obtain g where g: "first_pass W H R U m = Some g" "wf_map W H g"
    by blast
  from second_pass_shifts[OF g(2)] obtain m' where m': "second_pass W H g = Some m'"
    "wf_map W H m'"
    "\<And>a b. in_range W H a b \<Longrightarrow> cell m' a b = drop_bit 1 (cell g a b) AND 1" by blast
  have "binary_map m'"
    using m'(2) by (rule binary_mapI) (use m'(3) and_one_cases in auto)
  moreover have "cellularAutomata m W H R U = Some m'"
    using g(1) m'(1) by (simp add: cellularAutomata_def)
  ultimately show ?thesis
    using g(1) m' count_window_bit0[OF wf] by blast
qed

theorem cellularAutomata_binary_witness:
  "wf_map 2 2 [[2, 3], [- 7, 40]] \<and>
   (\<exists>m'. cellularAutomata [[2, 3], [- 7, 40]] 2 2 1 (1 / 2) = Some m' \<and> binary_map m')"
proof -
  have wf: "wf_map 2 2 [[2, 3], [- 7, 40]]" by (simp add: wf_map_def)
  from cellularAutomata_binary[OF wf, of 1 "1 / 2"] show ?thesis using wf by blast
qed

subsection \<open>The bias at the boundary\<close>

text \<open>
  Claim C7, as stated: on the empty 3 by 3 map with \<open>R = 1\<close> every cell would have at most 5
  window coordinates inside the grid and at least 4 outside. The centre cell has all 9 inside
  and none outside, and the count that the code computes for it is 0.
\<close>

theorem boundary_bias_centre_counterexample:
  "inside_count 3 3 1 1 1 = 9 \<and> outside_count 3 3 1 1 1 = 0 \<and>
   count_window (empty_map 3 3) 3 3 1 1 1 = Some 0 \<and>
   \<not> (inside_count 3 3 1 1 1 \<le> 5 \<and> 4 \<le> outside_count 3 3 1 1 1)"
  by code_simp

text \<open>
  Claim C7, amended. On the empty 3 by 3 map with \<open>R = 1\<close> and \<open>U = 1/2\<close> a corner cell has 4
  window coordinates inside the grid and 5 outside, an edge cell 6 and 3, the centre cell 9
  and 0 (the pairs below list the cells row by row). The code counts 5 for the corner cell, and
  after one step exactly the four corner cells are occupied, although all cells started empty.
\<close>

theorem boundary_bias_corners:
  "map (\<lambda>(i, j). (inside_count 3 3 1 i j, outside_count 3 3 1 i j)) (List.product [0..2] [0..2]) =
     [(4, 5), (6, 3), (4, 5), (6, 3), (9, 0), (6, 3), (4, 5), (6, 3), (4, 5)] \<and>
   count_window (empty_map 3 3) 3 3 1 0 0 = Some 5 \<and>
   cellularAutomata (empty_map 3 3) 3 3 1 (1 / 2) = Some [[1, 0, 1], [0, 0, 0], [1, 0, 1]]"
  by code_simp

section \<open>Properties of drunkAgent\<close>

subsection \<open>What every part of a call keeps\<close>

lemma grown_refl: "wf_map W H m \<Longrightarrow> grown W H m m"
  by (simp add: grown_def)

lemma grown_trans: "grown W H m m' \<Longrightarrow> grown W H m' m'' \<Longrightarrow> grown W H m m''"
  unfolding grown_def by metis

lemma grown_put: "wf_map W H m \<Longrightarrow> in_range W H i j \<Longrightarrow> grown W H m (put m i j 1)"
  by (simp add: grown_def wf_put cell_put)

lemma grown_wf: "grown W H m m' \<Longrightarrow> wf_map W H m'"
  by (simp add: grown_def)

lemma stamp_cell_grown:
  "wf_map W H m \<Longrightarrow> \<exists>m'. stamp_cell W H rx ry m = Some m' \<and> grown W H m m'"
  by (cases "in_range W H rx ry") (simp_all add: stamp_cell_def cell_set_wf grown_put grown_refl)

lemma stamp_row_grown:
  assumes t: "grown W H m t"
  shows "\<exists>t'. for_loop k kmax (\<lambda>dyRoom. stamp_cell W H rx (ay + dyRoom)) t = Some t' \<and>
               grown W H m t'"
proof (rule for_loop_preserves[where Q = "grown W H m"])
  show "grown W H m t" by (rule t)
next
  fix i u assume u: "grown W H m u"
  from stamp_cell_grown[OF grown_wf[OF u]] obtain t' where
    "stamp_cell W H rx (ay + i) u = Some t'" "grown W H u t'" by blast
  then show "\<exists>t'. stamp_cell W H rx (ay + i) u = Some t' \<and> grown W H m t'"
    using grown_trans[OF u] by simp
qed

lemma stamp_room_grown:
  assumes wf: "wf_map W H m"
  shows "\<exists>m'. stamp_room W H roomSizeX roomSizeY ax ay m = Some m' \<and> grown W H m m'"
  unfolding stamp_room_def Let_def
proof (rule for_loop_preserves[where Q = "grown W H m"])
  show "grown W H m m" by (rule grown_refl[OF wf])
next
  fix i u assume "grown W H m u"
  then show "\<exists>t'. for_loop (- half roomSizeY) (half roomSizeY)
                (\<lambda>dyRoom. stamp_cell W H (ax + i) (ay + dyRoom)) u = Some t' \<and> grown W H m t'"
    by (rule stamp_row_grown)
qed

text \<open>What a part of a call keeps: the shape of the map, the occupied cells, a position inside.\<close>

lemma keeps_refl: "wf_map W H (newMap s) \<Longrightarrow> keeps W H s s"
  by (simp add: keeps_def grown_refl)

lemma keeps_trans: "keeps W H s s' \<Longrightarrow> keeps W H s' s'' \<Longrightarrow> keeps W H s s''"
  unfolding keeps_def using grown_trans by blast

lemma keeps_wf: "keeps W H s s' \<Longrightarrow> wf_map W H (newMap s')"
  by (simp add: keeps_def grown_def)

lemma inner_step_keeps:
  assumes wf: "wf_map W H (newMap s)"
  shows "\<exists>s'. inner_step chance dirDist W H probIncreaseChange s = Some s' \<and> keeps W H s s'"
proof -
  obtain m where m: "(if in_range W H (agentX s) (agentY s)
            then cell_set (newMap s) (agentX s) (agentY s) 1
            else Some (newMap s)) = Some m" and g: "grown W H (newMap s) m"
    using wf by (cases "in_range W H (agentX s) (agentY s)")
      (simp_all add: cell_set_wf grown_put grown_refl)
  have pos: "in_range W H (agentX s) (agentY s) \<longrightarrow> in_range W H (agentX s + dx s) (agentY s + dy s)"
    if "in_range W H (agentX s + dx s) (agentY s + dy s)"
    using that by simp
  show ?thesis
  proof (cases "in_range W H (agentX s + dx s) (agentY s + dy s)")
    case True
    then show ?thesis
      unfolding inner_step_def m using g
      by (cases "chance (chanceCalls s) < probChangeDirection s") (simp_all add: keeps_def)
  next
    case False
    then show ?thesis
      unfolding inner_step_def m using g by (simp add: keeps_def)
  qed
qed

lemma keeps_loop:
  assumes wf: "wf_map W H (newMap s)"
    and body: "\<And>i t. wf_map W H (newMap t) \<Longrightarrow> \<exists>t'. body i t = Some t' \<and> keeps W H t t'"
  shows "\<exists>s'. for_loop k kmax body s = Some s' \<and> keeps W H s s'"
proof (rule for_loop_preserves[where Q = "keeps W H s"])
  show "keeps W H s s" by (rule keeps_refl[OF wf])
next
  fix i t assume t: "keeps W H s t"
  from body[OF keeps_wf[OF t]] obtain t' where "body i t = Some t'" "keeps W H t t'" by blast
  then show "\<exists>t'. body i t = Some t' \<and> keeps W H s t'"
    using keeps_trans[OF t] by simp
qed

lemma room_decision_keeps:
  assumes wf: "wf_map W H (newMap s)"
  shows "\<exists>s'. room_decision chance W H roomSizeX roomSizeY probIncreaseRoom s = Some s' \<and>
              keeps W H s s'"
proof -
  from stamp_room_grown[OF wf] obtain m where
    "stamp_room W H roomSizeX roomSizeY (agentX s) (agentY s) (newMap s) = Some m"
    "grown W H (newMap s) m" by blast
  then show ?thesis using wf by (simp add: room_decision_def keeps_def grown_refl)
qed

lemma walk_keeps:
  assumes wf: "wf_map W H (newMap s)"
  shows "\<exists>s'. walk chance dirDist W H I roomSizeX roomSizeY probIncreaseRoom probIncreaseChange s
                = Some s' \<and> keeps W H s s'"
proof -
  have "\<exists>t. for_loop 0 (I - 1) (\<lambda>i. inner_step chance dirDist W H probIncreaseChange) s = Some t
          \<and> keeps W H s t"
    using wf by (rule keeps_loop) (rule inner_step_keeps)
  then obtain t where
    t: "for_loop 0 (I - 1) (\<lambda>i. inner_step chance dirDist W H probIncreaseChange) s = Some t"
    "keeps W H s t" by blast
  from room_decision_keeps[OF keeps_wf[OF t(2)]] obtain s' where
    "room_decision chance W H roomSizeX roomSizeY probIncreaseRoom t = Some s'" "keeps W H t s'"
    by blast
  then show ?thesis using t keeps_trans[of W H s t s'] by (simp add: walk_def)
qed

lemma drunkAgent_run_keeps:
  assumes wf: "wf_map W H m"
  shows "\<exists>s'. drunkAgent_run chance dirDist m W H J I roomSizeX roomSizeY
                 pGenerateRoom probIncreaseRoom pChangeDirection probIncreaseChange ax ay = Some s' \<and>
              keeps W H (initial_agent m pGenerateRoom pChangeDirection ax ay) s'"
proof -
  have "wf_map W H (newMap (initial_agent m pGenerateRoom pChangeDirection ax ay))"
    using wf by (simp add: initial_agent_def)
  then show ?thesis
    unfolding drunkAgent_run_def by (rule keeps_loop) (rule walk_keeps)
qed

subsection \<open>Occupied cells stay occupied\<close>

lemma occupied_cells_iff:
  "(a, b) \<in> occupied_cells W H m \<longleftrightarrow> in_range W H a b \<and> occupied m a b"
  by (auto simp: occupied_cells_def occupied_list_def in_range_def)

lemma grown_occupied:
  assumes "grown W H m m'"
  shows "occupied_cells W H m \<subseteq> occupied_cells W H m'"
proof
  fix p assume p: "p \<in> occupied_cells W H m"
  obtain a b where ab: "p = (a, b)" by (cases p)
  with p have r: "in_range W H a b" and o: "occupied m a b"
    by (simp_all add: occupied_cells_iff)
  from assms r have "cell m' a b = cell m a b \<or> cell m' a b = 1"
    by (simp add: grown_def)
  with o have "occupied m' a b" by (auto simp: occupied_def)
  with r ab show "p \<in> occupied_cells W H m'" by (simp add: occupied_cells_iff)
qed

lemma drunkAgent_grown:
  assumes wf: "wf_map W H m"
  shows "\<exists>m' x' y'. drunkAgent chance dirDist m W H J I roomSizeX roomSizeY
            pGenerateRoom probIncreaseRoom pChangeDirection probIncreaseChange ax ay = Some (m', x', y') \<and>
          grown W H m m' \<and> (in_range W H ax ay \<longrightarrow> in_range W H x' y')"
proof -
  from drunkAgent_run_keeps[OF wf] obtain s' where
    "drunkAgent_run chance dirDist m W H J I roomSizeX roomSizeY
        pGenerateRoom probIncreaseRoom pChangeDirection probIncreaseChange ax ay = Some s'"
    "keeps W H (initial_agent m pGenerateRoom pChangeDirection ax ay) s'" by blast
  then show ?thesis by (simp add: drunkAgent_def keeps_def initial_agent_def)
qed

lemma drunkAgent_calls_grown:
  assumes wf: "wf_map W H m"
  shows "\<exists>m' x' y'. drunkAgent_calls W H cs (m, ax, ay) = Some (m', x', y') \<and> grown W H m m'"
  using wf
proof (induction cs arbitrary: m ax ay)
  case Nil
  then show ?case by (simp add: grown_refl)
next
  case (Cons c cs)
  from drunkAgent_grown[OF Cons.prems] obtain m1 x1 y1 where
    one: "drunkAgent (c_chance c) (c_dirDist c) m W H (c_J c) (c_I c)
             (c_roomSizeX c) (c_roomSizeY c) (c_probGenerateRoom c) (c_probIncreaseRoom c)
             (c_probChangeDirection c) (c_probIncreaseChange c) ax ay = Some (m1, x1, y1)"
    and g1: "grown W H m m1" by blast
  from Cons.IH[OF grown_wf[OF g1]] obtain m' x' y' where
    "drunkAgent_calls W H cs (m1, x1, y1) = Some (m', x', y')" "grown W H m1 m'" by blast
  then show ?case using one grown_trans[OF g1] by simp
qed

text \<open>
  Claim C4. For a map of \<open>H\<close> rows and \<open>W\<close> columns, any parameters, any draws and any
  position of the agent, \<open>drunkAgent\<close> returns a map of the same dimensions whose occupied
  cells include those of the input map; the same holds from the first map to the last of any
  sequence of calls.
\<close>

theorem drunkAgent_never_clears:
  assumes wf: "wf_map W H m"
  shows "(\<exists>m' x' y'. drunkAgent chance dirDist m W H J I roomSizeX roomSizeY
            pGenerateRoom probIncreaseRoom pChangeDirection probIncreaseChange ax ay = Some (m', x', y') \<and>
            wf_map W H m' \<and> occupied_cells W H m \<subseteq> occupied_cells W H m') \<and>
         (\<exists>m' x' y'. drunkAgent_calls W H cs (m, ax, ay) = Some (m', x', y') \<and>
            wf_map W H m' \<and> occupied_cells W H m \<subseteq> occupied_cells W H m')"
proof
  from drunkAgent_grown[OF wf] obtain m' x' y' where
    "drunkAgent chance dirDist m W H J I roomSizeX roomSizeY
       pGenerateRoom probIncreaseRoom pChangeDirection probIncreaseChange ax ay = Some (m', x', y')"
    "grown W H m m'" by blast
  then show "\<exists>m' x' y'. drunkAgent chance dirDist m W H J I roomSizeX roomSizeY
            pGenerateRoom probIncreaseRoom pChangeDirection probIncreaseChange ax ay = Some (m', x', y') \<and>
            wf_map W H m' \<and> occupied_cells W H m \<subseteq> occupied_cells W H m'"
    using grown_wf grown_occupied by blast
next
  from drunkAgent_calls_grown[OF wf] obtain m' x' y' where
    "drunkAgent_calls W H cs (m, ax, ay) = Some (m', x', y')" "grown W H m m'" by blast
  then show "\<exists>m' x' y'. drunkAgent_calls W H cs (m, ax, ay) = Some (m', x', y') \<and>
            wf_map W H m' \<and> occupied_cells W H m \<subseteq> occupied_cells W H m'"
    using grown_wf grown_occupied by blast
qed

theorem drunkAgent_never_clears_witness:
  "wf_map 3 1 [[0, 1, 0]] \<and>
   (\<exists>m' x' y'. drunkAgent (\<lambda>k. 0) (\<lambda>k. 2) [[0, 1, 0]] 3 1 2 2 3 3 (1 / 10) (1 / 20) (2 / 10) (3 / 100) 0 0
        = Some (m', x', y') \<and>
      occupied_cells 3 1 [[0, 1, 0]] \<subseteq> occupied_cells 3 1 m') \<and>
   (\<exists>m' x' y'. drunkAgent_calls 3 1
        [\<lparr>c_chance = \<lambda>k. 0, c_dirDist = \<lambda>k. 2, c_J = 2, c_I = 2, c_roomSizeX = 3, c_roomSizeY = 3,
          c_probGenerateRoom = 1 / 10, c_probIncreaseRoom = 1 / 20,
          c_probChangeDirection = 2 / 10, c_probIncreaseChange = 3 / 100\<rparr>,
         \<lparr>c_chance = \<lambda>k. 1 / 2, c_dirDist = \<lambda>k. 3, c_J = 1, c_I = 4, c_roomSizeX = 1, c_roomSizeY = 1,
          c_probGenerateRoom = 1 / 10, c_probIncreaseRoom = 1 / 20,
          c_probChangeDirection = 2 / 10, c_probIncreaseChange = 3 / 100\<rparr>]
        ([[0, 1, 0]], 0, 0) = Some (m', x', y') \<and>
      occupied_cells 3 1 [[0, 1, 0]] \<subseteq> occupied_cells 3 1 m')"
proof -
  have wf: "wf_map 3 1 [[0, 1, 0]]" by (simp add: wf_map_def)
  from drunkAgent_never_clears[OF wf, of "\<lambda>k. 0" "\<lambda>k. 2" 2 2 3 3 "1 / 10" "1 / 20" "2 / 10" "3 / 100" 0 0
      "[\<lparr>c_chance = \<lambda>k. 0, c_dirDist = \<lambda>k. 2, c_J = 2, c_I = 2, c_roomSizeX = 3, c_roomSizeY = 3,
          c_probGenerateRoom = 1 / 10, c_probIncreaseRoom = 1 / 20,
          c_probChangeDirection = 2 / 10, c_probIncreaseChange = 3 / 100\<rparr>,
         \<lparr>c_chance = \<lambda>k. 1 / 2, c_dirDist = \<lambda>k. 3, c_J = 1, c_I = 4, c_roomSizeX = 1, c_roomSizeY = 1,
          c_probGenerateRoom = 1 / 10, c_probIncreaseRoom = 1 / 20,
          c_probChangeDirection = 2 / 10, c_probIncreaseChange = 3 / 100\<rparr>]"]
  show ?thesis using wf by blast
qed

subsection \<open>The agent stays inside the grid\<close>

lemma room_decision_position:
  "room_decision chance W H roomSizeX roomSizeY probIncreaseRoom s = Some (s' :: agent) \<Longrightarrow>
     agentX s' = agentX s \<and> agentY s' = agentY s"
  by (auto simp: room_decision_def split: if_splits option.splits)

text \<open>
  Claim C5. When the agent starts inside the grid, an inner step leaves it inside the grid,
  the room decision does not move it, and the call ends with the agent inside the grid, for
  all numbers of walks and steps and all draws.
\<close>

theorem drunkAgent_stays_in_bounds:
  assumes wf: "wf_map W H m" and pos: "in_range W H ax ay"
  shows "(\<forall>s :: agent. wf_map W H (newMap s) \<and> in_range W H (agentX s) (agentY s) \<longrightarrow>
            (\<exists>s'. inner_step chance dirDist W H probIncreaseChange s = Some s' \<and>
                   in_range W H (agentX s') (agentY s'))) \<and>
         (\<forall>s :: agent. wf_map W H (newMap s) \<longrightarrow>
            (\<exists>s'. room_decision chance W H roomSizeX roomSizeY probIncreaseRoom s = Some s' \<and>
                   agentX s' = agentX s \<and> agentY s' = agentY s)) \<and>
         (\<exists>m' x' y'. drunkAgent chance dirDist m W H J I roomSizeX roomSizeY
              pGenerateRoom probIncreaseRoom pChangeDirection probIncreaseChange ax ay
            = Some (m', x', y') \<and> in_range W H x' y')"
proof (intro conjI allI impI)
  fix s :: agent assume s: "wf_map W H (newMap s) \<and> in_range W H (agentX s) (agentY s)"
  from inner_step_keeps[of W H s chance dirDist probIncreaseChange] s
  show "\<exists>s'. inner_step chance dirDist W H probIncreaseChange s = Some s' \<and>
             in_range W H (agentX s') (agentY s')"
    by (auto simp: keeps_def)
next
  fix s :: agent assume s: "wf_map W H (newMap s)"
  from room_decision_keeps[OF s] obtain s' where
    "room_decision chance W H roomSizeX roomSizeY probIncreaseRoom s = Some s'" by blast
  then show "\<exists>s'. room_decision chance W H roomSizeX roomSizeY probIncreaseRoom s = Some s' \<and>
                    agentX s' = agentX s \<and> agentY s' = agentY s"
    using room_decision_position by blast
next
  from drunkAgent_grown[OF wf] obtain m' x' y' where
    "drunkAgent chance dirDist m W H J I roomSizeX roomSizeY
        pGenerateRoom probIncreaseRoom pChangeDirection probIncreaseChange ax ay = Some (m', x', y')"
    "in_range W H ax ay \<longrightarrow> in_range W H x' y'" by blast
  with pos show "\<exists>m' x' y'. drunkAgent chance dirDist m W H J I roomSizeX roomSizeY
              pGenerateRoom probIncreaseRoom pChangeDirection probIncreaseChange ax ay
            = Some (m', x', y') \<and> in_range W H x' y'"
    by blast
qed

theorem drunkAgent_stays_in_bounds_witness:
  "wf_map 20 10 (empty_map 10 20) \<and> in_range 20 10 5 10 \<and>
   (\<exists>m' x' y'. drunkAgent (\<lambda>k. 0) (\<lambda>k. 3) (empty_map 10 20) 20 10 5 10 5 3
        (1 / 10) (1 / 20) (2 / 10) (3 / 100) 5 10 = Some (m', x', y') \<and> in_range 20 10 x' y')"
proof -
  have wf: "wf_map 20 10 (empty_map 10 20)" by (simp add: wf_map_def empty_map_def list_all_length)
  have pos: "in_range 20 10 5 10" by (simp add: in_range_def)
  from drunkAgent_stays_in_bounds[OF wf pos, of "\<lambda>k. 0" "\<lambda>k. 3" "3 / 100" 5 3 "1 / 20" 5 10 "1 / 10" "2 / 10"]
  show ?thesis using wf pos by blast
qed

subsection \<open>A step against the wall\<close>

text \<open>
  Claim C6. In an inner step whose candidate position is out of bounds the agent does not
  move, the heading becomes the one that the next value of \<^verbatim>\<open>dirDist\<close> selects, and nothing
  else changes but the mark on the current cell: the direction change probability is as
  before and no value of \<^verbatim>\<open>chance\<close> is drawn. The values 0, 1, 2, 3 of \<^verbatim>\<open>dirDist\<close> select
  the four cardinal headings, one each. (That \<^verbatim>\<open>dirDist\<close> is uniform on these four values is
  a property of the library's distribution, which the model takes as given.)
\<close>

theorem wall_bounce:
  assumes wf: "wf_map W H (newMap s)"
    and out: "\<not> in_range W H (agentX s + dx s) (agentY s + dy s)"
  shows "(\<exists>m'. inner_step chance dirDist W H probIncreaseChange s =
            Some (s\<lparr>newMap := m', dx := fst (heading (dirDist (dirCalls s))),
                    dy := snd (heading (dirDist (dirCalls s))),
                    dirCalls := Suc (dirCalls s)\<rparr>)) \<and>
         map heading [0, 1, 2, 3] = [(- 1, 0), (1, 0), (0, - 1), (0, 1)]"
proof -
  obtain m' where m: "(if in_range W H (agentX s) (agentY s)
            then cell_set (newMap s) (agentX s) (agentY s) 1
            else Some (newMap s)) = Some m'"
    using wf by (cases "in_range W H (agentX s) (agentY s)") (simp_all add: cell_set_wf)
  have "inner_step chance dirDist W H probIncreaseChange s =
            Some (s\<lparr>newMap := m', dx := fst (heading (dirDist (dirCalls s))),
                    dy := snd (heading (dirDist (dirCalls s))),
                    dirCalls := Suc (dirCalls s)\<rparr>)"
    unfolding inner_step_def m using out by (simp add: heading_def)
  moreover have "map heading [0, 1, 2, 3] = [(- 1, 0), (1, 0), (0, - 1), (0, 1)]"
    by (simp add: heading_def dir_dx_def dir_dy_def)
  ultimately show ?thesis by blast
qed

theorem wall_bounce_witness:
  "wf_map 20 10 (empty_map 10 20) \<and> \<not> in_range 20 10 (5 + 0) (19 + 1) \<and>
   (\<exists>m'. inner_step (\<lambda>k. 0) (\<lambda>k. 2) 20 10 (3 / 100)
            \<lparr>newMap = empty_map 10 20, agentX = 5, agentY = 19, dx = 0, dy = 1,
             probGenerateRoom = 1 / 10, probChangeDirection = 2 / 10, chanceCalls = 7, dirCalls = 4\<rparr>
        = Some \<lparr>newMap = m', agentX = 5, agentY = 19, dx = 0, dy = - 1,
             probGenerateRoom = 1 / 10, probChangeDirection = 2 / 10, chanceCalls = 7, dirCalls = 5\<rparr>)"
proof -
  let ?s = "\<lparr>newMap = empty_map 10 20, agentX = 5, agentY = 19, dx = 0, dy = 1,
             probGenerateRoom = 1 / 10, probChangeDirection = 2 / 10, chanceCalls = 7, dirCalls = 4\<rparr>"
  have wf: "wf_map 20 10 (empty_map 10 20)" by (simp add: wf_map_def empty_map_def list_all_length)
  have out: "\<not> in_range 20 10 (5 + 0) (19 + 1)" by (simp add: in_range_def)
  have "wf_map 20 10 (newMap ?s)" using wf by simp
  moreover have "\<not> in_range 20 10 (agentX ?s + dx ?s) (agentY ?s + dy ?s)" using out by simp
  ultimately have "\<exists>m'. inner_step (\<lambda>k. 0) (\<lambda>k. 2) 20 10 (3 / 100) ?s =
            Some (?s\<lparr>newMap := m', dx := fst (heading ((\<lambda>k. 2) (dirCalls ?s))),
                    dy := snd (heading ((\<lambda>k. 2) (dirCalls ?s))),
                    dirCalls := Suc (dirCalls ?s)\<rparr>)"
    using wall_bounce[of 20 10 ?s "\<lambda>k. 0" "\<lambda>k. 2" "3 / 100"] by blast
  then have "\<exists>m'. inner_step (\<lambda>k. 0) (\<lambda>k. 2) 20 10 (3 / 100) ?s
        = Some \<lparr>newMap = m', agentX = 5, agentY = 19, dx = 0, dy = - 1,
             probGenerateRoom = 1 / 10, probChangeDirection = 2 / 10, chanceCalls = 7, dirCalls = 5\<rparr>"
    by (simp add: heading_def dir_dx_def dir_dy_def)
  then show ?thesis using wf out by blast
qed

subsection \<open>The shape of a room\<close>




subsection \<open>An agent outside the grid\<close>




subsection \<open>The two adaptive probabilities\<close>

text \<open>
  Claim C2 at a call whose caller passes 0.5 for both probabilities. The first inner step
  changes direction and leaves \<open>probChangeDirection\<close> at 0.2, a room decision that fires leaves
  \<open>probGenerateRoom\<close> at 0.1: the literals of lines 134 and 155, not the values passed. In
  the call of one walk of three steps the second test therefore compares 0.3 with 0.2, the
  agent keeps its heading, and ends at \<open>(3, 11)\<close>.
\<close>

theorem reset_to_literal:
  "map_option probChangeDirection
     (inner_step turn_chance turn_dirDist 20 10 (3 / 100)
        (initial_agent (empty_map 10 20) (1 / 2) (1 / 2) 5 10)) = Some (2 / 10) \<and>
   map_option probGenerateRoom
     (room_decision (\<lambda>k. 0) 20 10 5 3 (1 / 20)
        (initial_agent (empty_map 10 20) (1 / 2) (1 / 2) 5 10)) = Some (1 / 10) \<and>
   map_option (\<lambda>(m, x, y). (x, y))
     (drunkAgent turn_chance turn_dirDist (empty_map 10 20) 20 10 1 3 5 3
        (1 / 10) (1 / 20) (1 / 2) (3 / 100) 5 10) = Some (3, 11)"
  by code_simp

subsection \<open>The room sizes along the two axes\<close>

text \<open>
  Claim C3 at the room sizes of \<^verbatim>\<open>main\<close>, \<open>roomSizeX = 5\<close> and \<open>roomSizeY = 3\<close>, in a call
  of one walk of one step on the empty map of 10 rows and 20 columns: the agent steps from
  \<open>(5, 10)\<close> to \<open>(5, 11)\<close>, and the room around it covers the rows 3 to 7 and the columns 10
  to 12, so \<open>roomSizeX\<close> is its extent along the rows. The sizes 4 and 2 give the same room of
  5 rows and 3 columns. (The lemma \<open>stamp_room_cells\<close> above gives the room for all sizes and
  positions.)
\<close>

theorem room_axes_swapped:
  "map_option (\<lambda>(m, x, y). (occupied_list 20 10 m, x, y))
     (drunkAgent (\<lambda>k. 0) (\<lambda>k. 0) (empty_map 10 20) 20 10 1 1 5 3
        (1 / 10) (1 / 20) (2 / 10) (3 / 100) 5 10)
     = Some (List.product [3, 4, 5, 6, 7] [10, 11, 12], 5, 11) \<and>
   map_option (\<lambda>(m, x, y). (occupied_list 20 10 m, x, y))
     (drunkAgent (\<lambda>k. 0) (\<lambda>k. 0) (empty_map 10 20) 20 10 1 1 4 2
        (1 / 10) (1 / 20) (2 / 10) (3 / 100) 5 10)
     = Some (List.product [3, 4, 5, 6, 7] [10, 11, 12], 5, 11)"
  by code_simp

subsection \<open>The number of occupied cells after a call\<close>


















end
